theory Spec2Isabelle
  imports Main "HOL-Library.AList"
begin

section \<open>The agent's cache of workload entries (pkg/agent/manager/cache/cache.go)\<close>

text \<open>
  The cache is a Go object that shares memory with its callers: subscribers are handed
  over as pointers, every subscriber points to a channel that the cache may close and
  replace, and the trust bundle is a slice over a backing array. The model therefore
  keeps three explicit stores beside the fields of \<^verbatim>\<open>cacheImpl\<close>: the subscriber
  objects, the channels and the backing arrays of certificate slices. An address is an
  index into its store; an address outside the store is the nil pointer (Go frees
  nothing that is still referenced, so there is no other dangling address).

  The three mutexes are not modelled: every method is one atomic transition of the
  state, which is what the locks provide to a single caller. The logger never changes
  the state and is left out.
\<close>

subsection \<open>Data model\<close>

type_synonym addr = nat

text \<open>\<^verbatim>\<open>common.Selector\<close> and the two fields of \<^verbatim>\<open>common.RegistrationEntry\<close>
  that cache.go reads.\<close>

record Selector =
  Type :: string
  Value :: string

type_synonym Selectors = "Selector list"

record RegistrationEntry =
  EntryId :: string
  Selectors :: "Selector list"

text \<open>Certificates and keys are only ever passed around as pointers; a pointer is
  modelled by the identity of the object it points to.\<close>

datatype x509_Certificate = CertRef nat

datatype ecdsa_PrivateKey = KeyRef nat

text \<open>\<^verbatim>\<open>Entry\<close> (lines 16-25). Pointers to entries and to registration entries are
  modelled by the records they point to: cache.go never writes through them.\<close>

record Entry =
  RegistrationEntry :: RegistrationEntry
  SVID :: x509_Certificate
  PrivateKey :: ecdsa_PrivateKey
  Bundles :: "(string \<times> nat list) list"

text \<open>A slice of certificates: nil, or a window (offset, length) on a backing array.
  The capacity is left out, no operation of cache.go reads it.\<close>

datatype slice = NilSlice | Slice addr nat nat

record WorkloadUpdate =
  upd_Entries :: "Entry list"
  upd_Bundle :: slice

text \<open>A Go channel of \<^verbatim>\<open>*WorkloadUpdate\<close>: its buffer (oldest first), its capacity
  and whether it has been closed.\<close>

record chan =
  buf :: "WorkloadUpdate list"
  cap :: nat
  closed :: bool

text \<open>The fields of \<^verbatim>\<open>subscriber\<close> that cache.go uses: \<^verbatim>\<open>sub.c\<close> (a reference to a
  channel), \<^verbatim>\<open>sub.sel\<close> and \<^verbatim>\<open>sub.active\<close>.\<close>

record subscriber =
  c :: addr
  sel :: "Selector list"
  active :: bool

text \<open>The state: the fields of \<^verbatim>\<open>cacheImpl\<close> (lines 47-55) and the three stores.
  The Go map \<^verbatim>\<open>cache\<close> is an association list with one pair per key; its order
  stands for the (unspecified) order in which Go iterates over the map; every method
  iterates over it at most once.
  \<^verbatim>\<open>subscribers\<close> is the registry: the list of the registered subscribers' addresses.\<close>

record world =
  cache :: "(string \<times> Entry) list"
  "bundle" :: slice
  subscribers :: "addr list"
  subscriber_objs :: "subscriber list"
  chans :: "chan list"
  arrays :: "x509_Certificate list list"

text \<open>How a method can fail to return: a panic of the Go runtime, or a send that
  waits for a consumer to make room.\<close>

datatype fault =
  NilDereference | CloseOfNilChannel | CloseOfClosedChannel | SendOnClosedChannel | Blocked

subsection \<open>Go's slices and channels\<close>

text \<open>The elements a slice denotes in a store of backing arrays.\<close>

definition slice_elems :: "x509_Certificate list list \<Rightarrow> slice \<Rightarrow> x509_Certificate list" where
  "slice_elems h s =
     (case s of
        NilSlice \<Rightarrow> []
      | Slice a off n \<Rightarrow> (if a < length h then take n (drop off (h ! a)) else []))"

text \<open>A slice is valid in a store when its window lies inside an allocated array;
  every slice of a running Go program is.\<close>

definition valid_slice :: "x509_Certificate list list \<Rightarrow> slice \<Rightarrow> bool" where
  "valid_slice h s =
     (case s of
        NilSlice \<Rightarrow> True
      | Slice a off n \<Rightarrow> a < length h \<and> off + n \<le> length (h ! a))"

text \<open>\<^verbatim>\<open>append(result, xs...)\<close> where \<^verbatim>\<open>result\<close> is the nil slice: nil again when there
  is nothing to append, otherwise a newly allocated array holding the elements.\<close>

definition append_to_nil ::
  "x509_Certificate list list \<Rightarrow> x509_Certificate list \<Rightarrow> slice \<times> x509_Certificate list list" where
  "append_to_nil h xs =
     (if xs = [] then (NilSlice, h) else (Slice (length h) 0 (length xs), h @ [xs]))"

text \<open>\<^verbatim>\<open>s[i] = x\<close>, the write a caller can do through a slice it holds. An index
  outside the slice panics (None).\<close>

definition slice_set ::
  "x509_Certificate list list \<Rightarrow> slice \<Rightarrow> nat \<Rightarrow> x509_Certificate \<Rightarrow> x509_Certificate list list option" where
  "slice_set h s i x =
     (case s of
        NilSlice \<Rightarrow> None
      | Slice a off n \<Rightarrow>
          (if i < n \<and> a < length h then Some (h[a := (h ! a)[off + i := x]]) else None))"

text \<open>\<^verbatim>\<open>len(ch)\<close>: the number of buffered values; 0 for the nil channel.\<close>

definition chan_len :: "chan list \<Rightarrow> addr \<Rightarrow> nat" where
  "chan_len h a = (if a < length h then length (buf (h ! a)) else 0)"

text \<open>\<^verbatim>\<open>close(ch)\<close>: panics on a nil channel and on a closed one.\<close>

definition chan_close :: "chan list \<Rightarrow> addr \<Rightarrow> fault + chan list" where
  "chan_close h a =
     (if a < length h then
        (if closed (h ! a) then Inl CloseOfClosedChannel
         else Inr (h[a := (h ! a)\<lparr>closed := True\<rparr>]))
      else Inl CloseOfNilChannel)"

text \<open>\<^verbatim>\<open>make(chan *WorkloadUpdate, n)\<close>: a new, empty, open channel.\<close>

definition chan_make :: "chan list \<Rightarrow> nat \<Rightarrow> addr \<times> chan list" where
  "chan_make h n = (length h, h @ [\<lparr>buf = [], cap = n, closed = False\<rparr>])"

text \<open>\<^verbatim>\<open>ch <- v\<close> by a sender that no receiver is waiting for: panics on a closed
  channel, stores the value when the buffer has room, and otherwise (buffer full,
  or the nil channel) waits.\<close>

definition chan_send :: "chan list \<Rightarrow> addr \<Rightarrow> WorkloadUpdate \<Rightarrow> fault + chan list" where
  "chan_send h a v =
     (if a < length h then
        (if closed (h ! a) then Inl SendOnClosedChannel
         else if length (buf (h ! a)) < cap (h ! a)
           then Inr (h[a := (h ! a)\<lparr>buf := buf (h ! a) @ [v]\<rparr>])
         else Inl Blocked)
      else Inl Blocked)"

subsection \<open>The selector sets of pkg/common/selector\<close>

text \<open>Modelled from the spec: package \<^verbatim>\<open>selector\<close> (\<^verbatim>\<open>NewSetFromRaw\<close>, \<^verbatim>\<open>IncludesSet\<close>),
  whose code is not available. The spec (4.4 and the glossary): a selector set is
  the unordered collection of the selectors, duplicates collapse; set A covers set B iff
  every selector in B is present in A; the predicate is total.\<close>

definition NewSetFromRaw :: "Selector list \<Rightarrow> Selector set" where
  "NewSetFromRaw raw = set raw"

definition IncludesSet :: "Selector set \<Rightarrow> Selector set \<Rightarrow> bool" where
  "IncludesSet s s2 = (s2 \<subseteq> s)"

subsection \<open>The subscriber registry\<close>

text \<open>Modelled from the spec: the type \<^verbatim>\<open>subscribers\<close> with \<^verbatim>\<open>NewSubscribers\<close>, \<^verbatim>\<open>add\<close>,
  \<^verbatim>\<open>remove\<close>, \<^verbatim>\<open>getAll\<close> and \<^verbatim>\<open>get\<close> is declared in another file of the package, whose
  code is not available. The spec (3, 4.2): a mapping from subscriber identity to
  subscriber; \<^verbatim>\<open>add\<close> registers a subscriber; \<^verbatim>\<open>remove\<close> deregisters and is idempotent;
  \<^verbatim>\<open>getAll\<close> returns all registered subscribers; \<^verbatim>\<open>get\<close> returns the registered
  subscribers that a given selector set concerns, computed on demand with the matcher.
  The spec words this lookup twice (3: "covered by a given entry's selector set"; 4.2:
  "interested in an entry carrying that selector set"); \<open>matching\<close> takes the subscribers
  to which an entry with these selectors is visible (4.4). No claim below depends on
  which registered subscribers the lookup selects.
  The identity of a subscriber is its address. The results are Go slices built by
  appending to a nil slice, as \<^verbatim>\<open>subscriberEntries\<close> builds its own: nil (None) when
  nothing was appended.\<close>

definition NewSubscribers :: "addr list" where
  "NewSubscribers = []"

definition add :: "addr list \<Rightarrow> addr \<Rightarrow> addr list" where
  "add r p = (if p \<in> set r then r else r @ [p])"

definition remove :: "addr list \<Rightarrow> addr \<Rightarrow> addr list" where
  "remove r p = removeAll p r"

definition slice_of :: "addr list \<Rightarrow> addr list option" where
  "slice_of ps = (if ps = [] then None else Some ps)"

definition getAll :: "addr list \<Rightarrow> addr list option" where
  "getAll r = slice_of r"

definition matching :: "subscriber list \<Rightarrow> addr list \<Rightarrow> Selector list \<Rightarrow> addr list" where
  "matching objs r sels =
     filter (\<lambda>p. p < length objs \<and>
               IncludesSet (NewSetFromRaw (sel (objs ! p))) (NewSetFromRaw sels)) r"

definition get :: "subscriber list \<Rightarrow> addr list \<Rightarrow> Selector list \<Rightarrow> addr list option" where
  "get objs r sels = slice_of (matching objs r sels)"

text \<open>Modelled from the spec: the subscriber's own method that ends the subscription,
  whose code is not available. The spec (3, 5): the consumer signals that it is done
  by flipping the subscriber's active flag; the cache observes the flag lazily.\<close>

definition deactivate :: "world \<Rightarrow> addr \<Rightarrow> world" where
  "deactivate w p =
     (if p < length (subscriber_objs w)
      then w\<lparr>subscriber_objs := (subscriber_objs w)[p := (subscriber_objs w ! p)\<lparr>active := False\<rparr>]\<rparr>
      else w)"

subsection \<open>The methods of \<^verbatim>\<open>cacheImpl\<close>\<close>

text \<open>\<^verbatim>\<open>New\<close> (lines 58-65) in a memory that holds the given objects: an empty map,
  the caller's bundle slice as it is, an empty registry.\<close>

definition New ::
  "subscriber list \<Rightarrow> chan list \<Rightarrow> x509_Certificate list list \<Rightarrow> slice \<Rightarrow> world" where
  "New objs chs arrs b =
     \<lparr>cache = [], bundle = b, subscribers = NewSubscribers,
      subscriber_objs = objs, chans = chs, arrays = arrs\<rparr>"

text \<open>\<^verbatim>\<open>Bundle\<close> (lines 76-81): the elements of the stored bundle appended to the nil
  result.\<close>

definition Bundle :: "world \<Rightarrow> slice \<times> world" where
  "Bundle w =
     (case append_to_nil (arrays w) (slice_elems (arrays w) (bundle w)) of
        (result, h) \<Rightarrow> (result, w\<lparr>arrays := h\<rparr>))"

text \<open>\<^verbatim>\<open>Entries\<close> (lines 83-91): the values of the map, in iteration order. The result is
  a slice of its own that nobody else holds; it is modelled by its elements.\<close>

definition Entries :: "world \<Rightarrow> Entry list" where
  "Entries w = map snd (cache w)"

text \<open>\<^verbatim>\<open>Entry\<close> (lines 98-105): None is the nil result.\<close>

definition Entry :: "world \<Rightarrow> RegistrationEntry \<Rightarrow> Entry option" where
  "Entry w regEntry = map_of (cache w) (EntryId regEntry)"

text \<open>\<^verbatim>\<open>IsEmpty\<close> (lines 161-165).\<close>

definition IsEmpty :: "world \<Rightarrow> bool" where
  "IsEmpty w = (length (cache w) = 0)"

text \<open>\<^verbatim>\<open>subscriberEntries\<close> (lines 167-175): the loop over the entries, keeping the
  ones whose selector set the subscriber's includes, in order.\<close>

fun subscriberEntries :: "subscriber \<Rightarrow> Entry list \<Rightarrow> Entry list" where
  "subscriberEntries sub [] = []"
| "subscriberEntries sub (e # entries) =
     (if IncludesSet (NewSetFromRaw (sel sub))
           (NewSetFromRaw (Selectors (RegistrationEntry e)))
      then e # subscriberEntries sub entries
      else subscriberEntries sub entries)"

text \<open>Lines 135-138: a channel that holds something is closed, and the subscriber gets
  a new channel of capacity 1. The result is the subscriber and the channel store.\<close>

definition replace_full :: "chan list \<Rightarrow> subscriber \<Rightarrow> fault + (subscriber \<times> chan list)" where
  "replace_full h sub =
     (if chan_len h (c sub) > 0 then
        (case chan_close h (c sub) of
           Inl f \<Rightarrow> Inl f
         | Inr h1 \<Rightarrow> (case chan_make h1 1 of (a, h2) \<Rightarrow> Inr (sub\<lparr>c := a\<rparr>, h2)))
      else Inr (sub, h))"

text \<open>The body of the loop of \<^verbatim>\<open>notifySubscribers\<close> (lines 127-141) for one pointer
  \<^verbatim>\<open>sub\<close>.\<close>

definition notify_one :: "world \<Rightarrow> Entry list \<Rightarrow> slice \<Rightarrow> addr \<Rightarrow> fault + world" where
  "notify_one w entries bdl p =
     (if p < length (subscriber_objs w) then
        (let sub = subscriber_objs w ! p in
         if \<not> active sub then Inr (w\<lparr>subscribers := remove (subscribers w) p\<rparr>)
         else
           (case replace_full (chans w) sub of
              Inl f \<Rightarrow> Inl f
            | Inr (sub1, h1) \<Rightarrow>
                (case chan_send h1 (c sub1)
                        \<lparr>upd_Entries = subscriberEntries sub1 entries, upd_Bundle = bdl\<rparr> of
                   Inl f \<Rightarrow> Inl f
                 | Inr h2 \<Rightarrow>
                     Inr (w\<lparr>subscriber_objs := (subscriber_objs w)[p := sub1], chans := h2\<rparr>))))
      else Inl NilDereference)"

fun notify_loop :: "world \<Rightarrow> Entry list \<Rightarrow> slice \<Rightarrow> addr list \<Rightarrow> fault + world" where
  "notify_loop w entries bdl [] = Inr w"
| "notify_loop w entries bdl (p # ps) =
     (case notify_one w entries bdl p of
        Inl f \<Rightarrow> Inl f
      | Inr w1 \<Rightarrow> notify_loop w1 entries bdl ps)"

text \<open>\<^verbatim>\<open>notifySubscribers\<close> (lines 116-143): nothing for the nil slice; otherwise one
  snapshot of the entries and one copy of the bundle, then the loop.\<close>

definition notifySubscribers :: "world \<Rightarrow> addr list option \<Rightarrow> fault + world" where
  "notifySubscribers w subs =
     (case subs of
        None \<Rightarrow> Inr w
      | Some ps \<Rightarrow>
          (let entries = Entries w in
           case Bundle w of (bdl, w1) \<Rightarrow> notify_loop w1 entries bdl ps))"

text \<open>\<^verbatim>\<open>SetBundle\<close> (lines 67-74).\<close>

definition SetBundle :: "world \<Rightarrow> slice \<Rightarrow> fault + world" where
  "SetBundle w b =
     (let w1 = w\<lparr>bundle := b\<rparr>;
          subs = getAll (subscribers w1)
      in notifySubscribers w1 subs)"

text \<open>\<^verbatim>\<open>Subscribe\<close> (lines 93-96).\<close>

definition Subscribe :: "world \<Rightarrow> addr \<Rightarrow> fault + world" where
  "Subscribe w p =
     (let w1 = w\<lparr>subscribers := add (subscribers w) p\<rparr>
      in notifySubscribers w1 (Some [p]))"

text \<open>\<^verbatim>\<open>SetEntry\<close> (lines 107-114).\<close>

definition SetEntry :: "world \<Rightarrow> Entry \<Rightarrow> fault + world" where
  "SetEntry w entry =
     (let w1 = w\<lparr>cache := AList.update (EntryId (RegistrationEntry entry)) entry (cache w)\<rparr>;
          subs = get (subscriber_objs w1) (subscribers w1) (Selectors (RegistrationEntry entry))
      in notifySubscribers w1 subs)"

text \<open>\<^verbatim>\<open>DeleteEntry\<close> (lines 145-159): the new state and the result \<^verbatim>\<open>deleted\<close>.\<close>

definition DeleteEntry :: "world \<Rightarrow> RegistrationEntry \<Rightarrow> fault + (world \<times> bool)" where
  "DeleteEntry w regEntry =
     (case map_of (cache w) (EntryId regEntry) of
        None \<Rightarrow> Inr (w, False)
      | Some entry \<Rightarrow>
          (let subs = get (subscriber_objs w) (subscribers w) (Selectors (RegistrationEntry entry));
               w1 = w\<lparr>cache := AList.delete (EntryId regEntry) (cache w)\<rparr>
           in case notifySubscribers w1 subs of
                Inl f \<Rightarrow> Inl f
              | Inr w2 \<Rightarrow> Inr (w2, True)))"

subsection \<open>Invariants and observations\<close>

text \<open>The spec's data model for a subscriber: a single-slot delivery channel that the
  subscriber owns. Every subscriber object points to a channel of its own; while the
  subscriber is active that channel is open, has capacity 1 and holds no more than
  its capacity.\<close>

definition sub_ok :: "chan list \<Rightarrow> subscriber \<Rightarrow> bool" where
  "sub_ok h sub =
     (c sub < length h \<and>
      (active sub \<longrightarrow>
         \<not> closed (h ! c sub) \<and> cap (h ! c sub) = 1 \<and> length (buf (h ! c sub)) \<le> 1))"

definition wf_subscribers :: "world \<Rightarrow> bool" where
  "wf_subscribers w =
     ((\<forall>sub \<in> set (subscriber_objs w). sub_ok (chans w) sub) \<and>
      distinct (map c (subscriber_objs w)))"

text \<open>The registry holds addresses of subscriber objects only.\<close>

definition wf_registry :: "world \<Rightarrow> bool" where
  "wf_registry w = (\<forall>p \<in> set (subscribers w). p < length (subscriber_objs w))"

text \<open>The association list is a Go map keyed by \<^verbatim>\<open>RegistrationEntry.EntryId\<close>: one
  pair per key, every entry under its own identifier.\<close>

definition wf_cache :: "world \<Rightarrow> bool" where
  "wf_cache w =
     (distinct (map fst (cache w)) \<and>
      (\<forall>ke \<in> set (cache w). fst ke = EntryId (RegistrationEntry (snd ke))))"

text \<open>What is waiting in the channel that subscriber \<open>p\<close> points to.\<close>

definition pending :: "world \<Rightarrow> addr \<Rightarrow> WorkloadUpdate list" where
  "pending w p = buf (chans w ! c (subscriber_objs w ! p))"

text \<open>The update that line 140 builds for a subscriber.\<close>

definition snapshot :: "subscriber \<Rightarrow> Entry list \<Rightarrow> slice \<Rightarrow> WorkloadUpdate" where
  "snapshot sub entries bdl =
     \<lparr>upd_Entries = subscriberEntries sub entries, upd_Bundle = bdl\<rparr>"

subsection \<open>The effect of a notification pass\<close>

text \<open>What a notification pass leaves alone, between a state \<open>w\<close> and a later state
  \<open>w'\<close>: the map, the bundle and the backing arrays; the number of subscriber objects,
  their selectors and active flags; a subscriber points to the channel it had or to one
  allocated since; a channel that no subscriber points to is not written to.\<close>

definition frame :: "world \<Rightarrow> world \<Rightarrow> bool" where
  "frame w w' =
     (cache w' = cache w \<and> bundle w' = bundle w \<and> arrays w' = arrays w \<and>
      length (subscriber_objs w') = length (subscriber_objs w) \<and>
      length (chans w) \<le> length (chans w') \<and>
      (\<forall>q < length (subscriber_objs w).
          sel (subscriber_objs w' ! q) = sel (subscriber_objs w ! q) \<and>
          active (subscriber_objs w' ! q) = active (subscriber_objs w ! q) \<and>
          (c (subscriber_objs w' ! q) = c (subscriber_objs w ! q) \<or>
           length (chans w) \<le> c (subscriber_objs w' ! q))) \<and>
      (\<forall>a < length (chans w). (\<forall>q < length (subscriber_objs w). c (subscriber_objs w ! q) \<noteq> a) \<longrightarrow>
          chans w' ! a = chans w ! a))"

text \<open>Subscriber \<open>q\<close> and the channel it points to are as they were.\<close>

definition untouched :: "world \<Rightarrow> world \<Rightarrow> addr \<Rightarrow> bool" where
  "untouched w w' q =
     (subscriber_objs w' ! q = subscriber_objs w ! q \<and>
      chans w' ! c (subscriber_objs w ! q) = chans w ! c (subscriber_objs w ! q))"

text \<open>The outcome of lines 135-140 for subscriber \<open>p\<close>: its channel holds the fresh
  update and nothing else; if its channel held something before, it now points to a
  channel allocated since, and the old channel is as it was but closed.\<close>

definition delivered :: "world \<Rightarrow> world \<Rightarrow> Entry list \<Rightarrow> slice \<Rightarrow> addr \<Rightarrow> bool" where
  "delivered w w' entries bdl p =
     (pending w' p = [snapshot (subscriber_objs w ! p) entries bdl] \<and>
      (pending w p \<noteq> [] \<longrightarrow>
         length (chans w) \<le> c (subscriber_objs w' ! p) \<and>
         chans w' ! c (subscriber_objs w ! p) =
           (chans w ! c (subscriber_objs w ! p))\<lparr>closed := True\<rparr>))"

text \<open>The state \<open>w'\<close> after a notification pass over the pointers \<open>ps\<close> from \<open>w\<close>.\<close>

definition pass_post :: "world \<Rightarrow> addr list \<Rightarrow> world \<Rightarrow> bool" where
  "pass_post w ps w' =
     (wf_subscribers w' \<and> cache w' = cache w \<and> bundle w' = bundle w \<and>
      length (subscriber_objs w') = length (subscriber_objs w) \<and>
      length (chans w) \<le> length (chans w') \<and>
      (\<forall>q < length (subscriber_objs w).
          sel (subscriber_objs w' ! q) = sel (subscriber_objs w ! q) \<and>
          active (subscriber_objs w' ! q) = active (subscriber_objs w ! q)) \<and>
      subscribers w' =
        filter (\<lambda>q. \<not> (q \<in> set ps \<and> \<not> active (subscriber_objs w ! q))) (subscribers w) \<and>
      (\<forall>q < length (subscriber_objs w).
          q \<notin> set ps \<or> \<not> active (subscriber_objs w ! q) \<longrightarrow> untouched w w' q) \<and>
      (\<forall>p \<in> set ps. active (subscriber_objs w ! p) \<longrightarrow>
          (\<exists>bdl. delivered w w' (Entries w) bdl p \<and>
                 slice_elems (arrays w') bdl = slice_elems (arrays w) (bundle w))))"

subsection \<open>A sample state\<close>

text \<open>Two entries, E1 for selector a and E2 for selector c; a bundle of one certificate,
  and a second array of two certificates to rotate to.
  Three subscribers: 0 is registered and active with a stale update waiting, 1 is
  registered and inactive, 2 is active, not yet registered, with an empty channel.\<close>

definition selector_a :: Selector where
  "selector_a = \<lparr>Type = ''a'', Value = ''1''\<rparr>"

definition selector_b :: Selector where
  "selector_b = \<lparr>Type = ''b'', Value = ''2''\<rparr>"

definition selector_c :: Selector where
  "selector_c = \<lparr>Type = ''c'', Value = ''3''\<rparr>"

definition entry_E1 :: Entry where
  "entry_E1 = \<lparr>RegistrationEntry = \<lparr>EntryId = ''E1'', Selectors = [selector_a]\<rparr>,
               SVID = CertRef 1, PrivateKey = KeyRef 1, Bundles = []\<rparr>"

definition entry_E1_renewed :: Entry where
  "entry_E1_renewed = \<lparr>RegistrationEntry = \<lparr>EntryId = ''E1'', Selectors = [selector_a]\<rparr>,
               SVID = CertRef 2, PrivateKey = KeyRef 2, Bundles = []\<rparr>"

definition entry_E2 :: Entry where
  "entry_E2 = \<lparr>RegistrationEntry = \<lparr>EntryId = ''E2'', Selectors = [selector_c]\<rparr>,
               SVID = CertRef 3, PrivateKey = KeyRef 3, Bundles = []\<rparr>"

definition stale_update :: WorkloadUpdate where
  "stale_update = \<lparr>upd_Entries = [], upd_Bundle = NilSlice\<rparr>"

definition sample_world :: world where
  "sample_world =
     \<lparr>cache = [(''E1'', entry_E1), (''E2'', entry_E2)],
      bundle = Slice 0 0 1,
      subscribers = [0, 1],
      subscriber_objs =
        [\<lparr>c = 0, sel = [selector_a, selector_b], active = True\<rparr>,
         \<lparr>c = 1, sel = [selector_b], active = False\<rparr>,
         \<lparr>c = 2, sel = [selector_a], active = True\<rparr>],
      chans =
        [\<lparr>buf = [stale_update], cap = 1, closed = False\<rparr>,
         \<lparr>buf = [], cap = 1, closed = True\<rparr>,
         \<lparr>buf = [], cap = 1, closed = False\<rparr>],
      arrays = [[CertRef 7], [CertRef 8, CertRef 9]]\<rparr>"

section \<open>Lemmas\<close>

subsection \<open>One round of the loop\<close>

lemma subscriberEntries_filter:
  "subscriberEntries sub entries =
     filter (\<lambda>e. set (Selectors (RegistrationEntry e)) \<subseteq> set (sel sub)) entries"
  by (induction entries) (simp_all add: IncludesSet_def NewSetFromRaw_def)

lemma snapshot_sel: "sel s1 = sel s2 \<Longrightarrow> snapshot s1 es b = snapshot s2 es b"
  by (simp add: snapshot_def subscriberEntries_filter)

lemma wf_subscribers_nth:
  "wf_subscribers w \<longleftrightarrow>
     (\<forall>q < length (subscriber_objs w). sub_ok (chans w) (subscriber_objs w ! q)) \<and>
     (\<forall>q < length (subscriber_objs w). \<forall>r < length (subscriber_objs w).
         q \<noteq> r \<longrightarrow> c (subscriber_objs w ! q) \<noteq> c (subscriber_objs w ! r))"
  unfolding wf_subscribers_def
  by (auto simp: all_set_conv_all_nth distinct_conv_nth)

lemma notify_one_inactive:
  "p < length (subscriber_objs w) \<Longrightarrow> \<not> active (subscriber_objs w ! p) \<Longrightarrow>
   notify_one w es b p = Inr (w\<lparr>subscribers := remove (subscribers w) p\<rparr>)"
  by (simp add: notify_one_def)

lemma notify_one_empty:
  assumes "wf_subscribers w" "p < length (subscriber_objs w)"
    "active (subscriber_objs w ! p)" "pending w p = []"
  shows "notify_one w es b p =
     Inr (w\<lparr>chans := (chans w)[c (subscriber_objs w ! p) :=
             (chans w ! c (subscriber_objs w ! p))\<lparr>buf := [snapshot (subscriber_objs w ! p) es b]\<rparr>]\<rparr>)"
proof -
  from assms have ok: "sub_ok (chans w) (subscriber_objs w ! p)"
    by (simp add: wf_subscribers_nth)
  with assms show ?thesis
    by (simp add: notify_one_def replace_full_def chan_len_def chan_send_def sub_ok_def
        pending_def snapshot_def Let_def)
qed

lemma notify_one_full:
  assumes "wf_subscribers w" "p < length (subscriber_objs w)"
    "active (subscriber_objs w ! p)" "pending w p \<noteq> []"
  shows "notify_one w es b p =
     Inr (w\<lparr>subscriber_objs := (subscriber_objs w)[p := (subscriber_objs w ! p)\<lparr>c := length (chans w)\<rparr>],
           chans := (chans w)[c (subscriber_objs w ! p) :=
                       (chans w ! c (subscriber_objs w ! p))\<lparr>closed := True\<rparr>]
                    @ [\<lparr>buf = [snapshot (subscriber_objs w ! p) es b], cap = 1, closed = False\<rparr>]\<rparr>)"
proof -
  from assms have ok: "sub_ok (chans w) (subscriber_objs w ! p)"
    by (simp add: wf_subscribers_nth)
  with assms show ?thesis
    by (simp add: notify_one_def replace_full_def chan_len_def chan_send_def chan_close_def chan_make_def sub_ok_def
        pending_def snapshot_def Let_def subscriberEntries_filter nth_append list_update_append)
qed


lemma frame_refl: "frame w w"
  by (simp add: frame_def)

lemma frame_trans:
  assumes "frame w w1" "frame w1 w2"
  shows "frame w w2"
  unfolding frame_def
proof (intro conjI allI impI)
  fix q assume q: "q < length (subscriber_objs w)"
  with assms show "sel (subscriber_objs w2 ! q) = sel (subscriber_objs w ! q)"
    by (simp add: frame_def)
  from q assms show "active (subscriber_objs w2 ! q) = active (subscriber_objs w ! q)"
    by (simp add: frame_def)
  from q assms have
    a: "c (subscriber_objs w1 ! q) = c (subscriber_objs w ! q) \<or>
         length (chans w) \<le> c (subscriber_objs w1 ! q)" and
    b: "c (subscriber_objs w2 ! q) = c (subscriber_objs w1 ! q) \<or>
         length (chans w1) \<le> c (subscriber_objs w2 ! q)" and
    l: "length (chans w) \<le> length (chans w1)"
    by (simp_all add: frame_def)
  then show "c (subscriber_objs w2 ! q) = c (subscriber_objs w ! q) \<or>
         length (chans w) \<le> c (subscriber_objs w2 ! q)"
    by auto
next
  fix a assume a: "a < length (chans w)"
    and un: "\<forall>q < length (subscriber_objs w). c (subscriber_objs w ! q) \<noteq> a"
  from assms a un have 1: "chans w1 ! a = chans w ! a"
    by (simp add: frame_def)
  from assms a have a1: "a < length (chans w1)"
    by (simp add: frame_def)
  have "\<forall>q < length (subscriber_objs w1). c (subscriber_objs w1 ! q) \<noteq> a"
  proof (intro allI impI)
    fix q assume "q < length (subscriber_objs w1)"
    with assms(1) have q: "q < length (subscriber_objs w)" by (simp add: frame_def)
    with assms(1) have "c (subscriber_objs w1 ! q) = c (subscriber_objs w ! q) \<or>
         length (chans w) \<le> c (subscriber_objs w1 ! q)"
      by (simp add: frame_def)
    with un q a show "c (subscriber_objs w1 ! q) \<noteq> a" by auto
  qed
  with assms(2) a1 have "chans w2 ! a = chans w1 ! a"
    by (simp add: frame_def)
  with 1 show "chans w2 ! a = chans w ! a" by simp
qed (use assms in \<open>simp_all add: frame_def\<close>)

lemma untouched_refl: "untouched w w q"
  by (simp add: untouched_def)

lemma untouched_trans: "untouched w w1 q \<Longrightarrow> untouched w1 w2 q \<Longrightarrow> untouched w w2 q"
  by (simp add: untouched_def)


lemma step_inactive:
  assumes wf: "wf_subscribers w" and p: "p < length (subscriber_objs w)"
    and ina: "\<not> active (subscriber_objs w ! p)"
  shows "\<exists>w1. notify_one w es b p = Inr w1 \<and> wf_subscribers w1 \<and> frame w w1 \<and>
           subscribers w1 = remove (subscribers w) p \<and>
           (\<forall>q. untouched w w1 q)"
proof -
  let ?w1 = "w\<lparr>subscribers := remove (subscribers w) p\<rparr>"
  have "notify_one w es b p = Inr ?w1"
    using p ina by (rule notify_one_inactive)
  moreover have "wf_subscribers ?w1"
    using wf by (simp add: wf_subscribers_def)
  moreover have "frame w ?w1"
    by (simp add: frame_def)
  moreover have "\<forall>q. untouched w ?w1 q"
    by (simp add: untouched_def)
  ultimately show ?thesis by auto
qed

lemma step_empty:
  assumes wf: "wf_subscribers w" and p: "p < length (subscriber_objs w)"
    and act: "active (subscriber_objs w ! p)" and emp: "pending w p = []"
  shows "\<exists>w1. notify_one w es b p = Inr w1 \<and> wf_subscribers w1 \<and> frame w w1 \<and>
           subscribers w1 = subscribers w \<and>
           (\<forall>q < length (subscriber_objs w). q \<noteq> p \<longrightarrow> untouched w w1 q) \<and>
           pending w1 p = [snapshot (subscriber_objs w ! p) es b]"
proof -
  let ?a = "c (subscriber_objs w ! p)"
  let ?w1 = "w\<lparr>chans := (chans w)[?a :=
             (chans w ! ?a)\<lparr>buf := [snapshot (subscriber_objs w ! p) es b]\<rparr>]\<rparr>"
  from wf p have ok: "sub_ok (chans w) (subscriber_objs w ! p)"
    by (simp add: wf_subscribers_nth)
  then have a: "?a < length (chans w)" by (simp add: sub_ok_def)
  have "notify_one w es b p = Inr ?w1"
    using wf p act emp by (rule notify_one_empty)
  moreover have "wf_subscribers ?w1"
    using wf ok act unfolding wf_subscribers_nth sub_ok_def
    by (auto simp: nth_list_update)
  moreover have "frame w ?w1"
    using p by (auto simp: frame_def)
  moreover have "\<forall>q < length (subscriber_objs w). q \<noteq> p \<longrightarrow> untouched w ?w1 q"
    using wf p unfolding wf_subscribers_nth untouched_def by auto
  moreover have "pending ?w1 p = [snapshot (subscriber_objs w ! p) es b]"
    using a by (simp add: pending_def)
  ultimately show ?thesis by auto
qed

lemma step_full:
  assumes wf: "wf_subscribers w" and p: "p < length (subscriber_objs w)"
    and act: "active (subscriber_objs w ! p)" and full: "pending w p \<noteq> []"
  shows "\<exists>w1. notify_one w es b p = Inr w1 \<and> wf_subscribers w1 \<and> frame w w1 \<and>
           subscribers w1 = subscribers w \<and>
           (\<forall>q < length (subscriber_objs w). q \<noteq> p \<longrightarrow> untouched w w1 q) \<and>
           pending w1 p = [snapshot (subscriber_objs w ! p) es b] \<and>
           c (subscriber_objs w1 ! p) = length (chans w) \<and>
           chans w1 ! c (subscriber_objs w ! p) = (chans w ! c (subscriber_objs w ! p))\<lparr>closed := True\<rparr>"
proof -
  let ?a = "c (subscriber_objs w ! p)"
  let ?w1 = "w\<lparr>subscriber_objs := (subscriber_objs w)[p := (subscriber_objs w ! p)\<lparr>c := length (chans w)\<rparr>],
           chans := (chans w)[?a := (chans w ! ?a)\<lparr>closed := True\<rparr>]
                    @ [\<lparr>buf = [snapshot (subscriber_objs w ! p) es b], cap = 1, closed = False\<rparr>]\<rparr>"
  from wf p have ok: "sub_ok (chans w) (subscriber_objs w ! p)"
    by (simp add: wf_subscribers_nth)
  then have a: "?a < length (chans w)" by (simp add: sub_ok_def)
  have "notify_one w es b p = Inr ?w1"
    using wf p act full by (rule notify_one_full)
  moreover have "wf_subscribers ?w1"
    using wf ok act p unfolding wf_subscribers_nth sub_ok_def
    by (auto simp: nth_list_update nth_append)
  moreover have "frame w ?w1"
    using p a by (auto simp: frame_def nth_list_update nth_append)
  moreover have "\<forall>q < length (subscriber_objs w). q \<noteq> p \<longrightarrow> untouched w ?w1 q"
    using wf p unfolding wf_subscribers_nth untouched_def sub_ok_def
    by (auto simp: nth_append)
  moreover have "pending ?w1 p = [snapshot (subscriber_objs w ! p) es b]"
    using a p by (simp add: pending_def nth_append)
  moreover have "c (subscriber_objs ?w1 ! p) = length (chans w)"
    using p by simp
  moreover have "chans ?w1 ! ?a = (chans w ! ?a)\<lparr>closed := True\<rparr>"
    using a by (simp add: nth_append)
  moreover have "subscribers ?w1 = subscribers w" by simp
  ultimately show ?thesis by blast
qed


lemma notify_one_step:
  assumes wf: "wf_subscribers w" and p: "p < length (subscriber_objs w)"
  shows "\<exists>w1. notify_one w es b p = Inr w1 \<and> wf_subscribers w1 \<and> frame w w1 \<and>
           subscribers w1 =
             (if active (subscriber_objs w ! p) then subscribers w else remove (subscribers w) p) \<and>
           (\<forall>q < length (subscriber_objs w).
               q \<noteq> p \<or> \<not> active (subscriber_objs w ! p) \<longrightarrow> untouched w w1 q) \<and>
           (active (subscriber_objs w ! p) \<longrightarrow> delivered w w1 es b p)"
proof (cases "active (subscriber_objs w ! p)")
  case False
  with step_inactive [OF wf p, of es b] show ?thesis by auto
next
  case act: True
  show ?thesis
  proof (cases "pending w p = []")
    case True
    with step_empty [OF wf p act, of es b] act show ?thesis
      by (auto simp: delivered_def)
  next
    case False
    with step_full [OF wf p act, of es b] act show ?thesis
      by (auto simp: delivered_def)
  qed
qed

lemma replaced_unreferenced:
  assumes wf: "wf_subscribers w" and p: "p < length (subscriber_objs w)"
    and fr: "frame w w1"
    and un: "\<forall>q < length (subscriber_objs w). q \<noteq> p \<longrightarrow> untouched w w1 q"
    and new: "length (chans w) \<le> c (subscriber_objs w1 ! p)"
    and fr2: "frame w1 w2"
  shows "chans w2 ! c (subscriber_objs w ! p) = chans w1 ! c (subscriber_objs w ! p)"
proof -
  let ?a = "c (subscriber_objs w ! p)"
  from wf p have a: "?a < length (chans w)"
    by (simp add: wf_subscribers_nth sub_ok_def)
  with fr have a1: "?a < length (chans w1)" by (simp add: frame_def)
  have "\<forall>q < length (subscriber_objs w1). c (subscriber_objs w1 ! q) \<noteq> ?a"
  proof (intro allI impI)
    fix q assume "q < length (subscriber_objs w1)"
    with fr have q: "q < length (subscriber_objs w)" by (simp add: frame_def)
    show "c (subscriber_objs w1 ! q) \<noteq> ?a"
    proof (cases "q = p")
      case True
      with new a show ?thesis by simp
    next
      case False
      with un q have "subscriber_objs w1 ! q = subscriber_objs w ! q"
        by (simp add: untouched_def)
      with wf q p False show ?thesis by (simp add: wf_subscribers_nth)
    qed
  qed
  with fr2 a1 show ?thesis by (simp add: frame_def)
qed


subsection \<open>The loop and the pass\<close>

text \<open>By induction on the list of pointers. A target that occurs twice is served
  twice; what is recorded is the outcome after its last round.\<close>

lemma notify_loop_pass:
  assumes "wf_subscribers w" and "\<forall>p \<in> set ps. p < length (subscriber_objs w)"
  shows "\<exists>w'. notify_loop w es b ps = Inr w' \<and> wf_subscribers w' \<and> frame w w' \<and>
           subscribers w' =
             filter (\<lambda>q. \<not> (q \<in> set ps \<and> \<not> active (subscriber_objs w ! q))) (subscribers w) \<and>
           (\<forall>q < length (subscriber_objs w).
               q \<notin> set ps \<or> \<not> active (subscriber_objs w ! q) \<longrightarrow> untouched w w' q) \<and>
           (\<forall>p \<in> set ps. active (subscriber_objs w ! p) \<longrightarrow> delivered w w' es b p)"
  using assms
proof (induction ps arbitrary: w)
  case Nil
  then show ?case by (simp add: frame_refl untouched_refl)
next
  case (Cons p ps)
  from Cons.prems have wf: "wf_subscribers w" and p: "p < length (subscriber_objs w)"
    and ps: "\<forall>q \<in> set ps. q < length (subscriber_objs w)"
    by simp_all
  from notify_one_step [OF wf p, of es b] obtain w1 where
    one: "notify_one w es b p = Inr w1" and wf1: "wf_subscribers w1" and fr1: "frame w w1"
    and reg1: "subscribers w1 =
             (if active (subscriber_objs w ! p) then subscribers w else remove (subscribers w) p)"
    and un1: "\<forall>q < length (subscriber_objs w).
               q \<noteq> p \<or> \<not> active (subscriber_objs w ! p) \<longrightarrow> untouched w w1 q"
    and del1: "active (subscriber_objs w ! p) \<longrightarrow> delivered w w1 es b p"
    by blast
  from fr1 have len1: "length (subscriber_objs w1) = length (subscriber_objs w)"
    and act1: "\<And>q. q < length (subscriber_objs w) \<Longrightarrow>
                 active (subscriber_objs w1 ! q) = active (subscriber_objs w ! q)"
    and sel1: "\<And>q. q < length (subscriber_objs w) \<Longrightarrow>
                 sel (subscriber_objs w1 ! q) = sel (subscriber_objs w ! q)"
    and chl1: "length (chans w) \<le> length (chans w1)"
    by (simp_all add: frame_def)
  from ps len1 have ps1: "\<forall>q \<in> set ps. q < length (subscriber_objs w1)" by simp
  from Cons.IH [OF wf1 ps1] obtain w' where
    loop: "notify_loop w1 es b ps = Inr w'" and wf': "wf_subscribers w'" and fr': "frame w1 w'"
    and reg': "subscribers w' =
             filter (\<lambda>q. \<not> (q \<in> set ps \<and> \<not> active (subscriber_objs w1 ! q))) (subscribers w1)"
    and un': "\<forall>q < length (subscriber_objs w1).
               q \<notin> set ps \<or> \<not> active (subscriber_objs w1 ! q) \<longrightarrow> untouched w1 w' q"
    and del': "\<forall>q \<in> set ps. active (subscriber_objs w1 ! q) \<longrightarrow> delivered w1 w' es b q"
    by blast
  have 1: "notify_loop w es b (p # ps) = Inr w'"
    using one loop by simp
  have 2: "frame w w'"
    using fr1 fr' by (rule frame_trans)
  have 3: "subscribers w' =
             filter (\<lambda>q. \<not> (q \<in> set (p # ps) \<and> \<not> active (subscriber_objs w ! q))) (subscribers w)"
  proof (cases "active (subscriber_objs w ! p)")
    case True
    with reg' reg1 have "subscribers w' =
        filter (\<lambda>q. \<not> (q \<in> set ps \<and> \<not> active (subscriber_objs w1 ! q))) (subscribers w)"
      by simp
    also have "\<dots> = filter (\<lambda>q. \<not> (q \<in> set (p # ps) \<and> \<not> active (subscriber_objs w ! q))) (subscribers w)"
      using True ps act1 by (intro filter_cong refl) auto
    finally show ?thesis .
  next
    case False
    with reg' reg1 have "subscribers w' =
        filter (\<lambda>q. \<not> (q \<in> set ps \<and> \<not> active (subscriber_objs w1 ! q)))
          (filter (\<lambda>q. p \<noteq> q) (subscribers w))"
      by (simp add: remove_def removeAll_filter_not_eq)
    also have "\<dots> = filter (\<lambda>q. p \<noteq> q \<and> \<not> (q \<in> set ps \<and> \<not> active (subscriber_objs w1 ! q))) (subscribers w)"
      by (simp add: conj_commute)
    also have "\<dots> = filter (\<lambda>q. \<not> (q \<in> set (p # ps) \<and> \<not> active (subscriber_objs w ! q))) (subscribers w)"
      using False ps act1 by (intro filter_cong refl) auto
    finally show ?thesis .
  qed
  have 4: "\<forall>q < length (subscriber_objs w).
               q \<notin> set (p # ps) \<or> \<not> active (subscriber_objs w ! q) \<longrightarrow> untouched w w' q"
  proof (intro allI impI)
    fix q assume q: "q < length (subscriber_objs w)"
      and h: "q \<notin> set (p # ps) \<or> \<not> active (subscriber_objs w ! q)"
    from h have "q \<noteq> p \<or> \<not> active (subscriber_objs w ! p)" by auto
    with un1 q have a: "untouched w w1 q" by simp
    from h act1 [OF q] have "q \<notin> set ps \<or> \<not> active (subscriber_objs w1 ! q)" by auto
    with un' q len1 have "untouched w1 w' q" by simp
    with a show "untouched w w' q" by (rule untouched_trans)
  qed
  have 5: "\<forall>q \<in> set (p # ps). active (subscriber_objs w ! q) \<longrightarrow> delivered w w' es b q"
  proof (intro ballI impI)
    fix q assume qin: "q \<in> set (p # ps)" and qact: "active (subscriber_objs w ! q)"
    from qin p ps have q: "q < length (subscriber_objs w)" by auto
    show "delivered w w' es b q"
    proof (cases "q = p")
      case True
      with qact del1 have d1: "delivered w w1 es b p" by simp
      have pend: "pending w' p = [snapshot (subscriber_objs w ! p) es b]"
      proof (cases "p \<in> set ps")
        case True
        with del' act1 [OF p] \<open>q = p\<close> qact have "delivered w1 w' es b p" by simp
        then have "pending w' p = [snapshot (subscriber_objs w1 ! p) es b]"
          by (simp add: delivered_def)
        with sel1 [OF p] show ?thesis by (simp add: snapshot_sel [of "subscriber_objs w1 ! p"])
      next
        case False
        with un' p len1 have "untouched w1 w' p" by simp
        then have "pending w' p = pending w1 p" by (simp add: untouched_def pending_def)
        with d1 show ?thesis by (simp add: delivered_def)
      qed
      have old: "length (chans w) \<le> c (subscriber_objs w' ! p) \<and>
         chans w' ! c (subscriber_objs w ! p) =
           (chans w ! c (subscriber_objs w ! p))\<lparr>closed := True\<rparr>" if full: "pending w p \<noteq> []"
      proof -
        from d1 full have new1: "length (chans w) \<le> c (subscriber_objs w1 ! p)"
          and cl1: "chans w1 ! c (subscriber_objs w ! p) =
                      (chans w ! c (subscriber_objs w ! p))\<lparr>closed := True\<rparr>"
          by (simp_all add: delivered_def)
        from un1 have un1': "\<forall>q < length (subscriber_objs w). q \<noteq> p \<longrightarrow> untouched w w1 q"
          by simp
        have "chans w' ! c (subscriber_objs w ! p) = chans w1 ! c (subscriber_objs w ! p)"
          using wf p fr1 un1' new1 fr' by (rule replaced_unreferenced)
        moreover from fr' p len1 have "c (subscriber_objs w' ! p) = c (subscriber_objs w1 ! p) \<or>
             length (chans w1) \<le> c (subscriber_objs w' ! p)"
          by (simp add: frame_def)
        with new1 chl1 have "length (chans w) \<le> c (subscriber_objs w' ! p)" by auto
        ultimately show ?thesis using cl1 by simp
      qed
      from pend old \<open>q = p\<close> show ?thesis by (simp add: delivered_def)
    next
      case False
      with qin have qps: "q \<in> set ps" by simp
      from False un1 q have u: "untouched w w1 q" by simp
      then have same: "subscriber_objs w1 ! q = subscriber_objs w ! q"
        and pend1: "pending w1 q = pending w q"
        by (simp_all add: untouched_def pending_def)
      from u have ch1: "chans w1 ! c (subscriber_objs w ! q) = chans w ! c (subscriber_objs w ! q)"
        by (simp add: untouched_def)
      from del' qps qact same have "delivered w1 w' es b q" by simp
      with same pend1 ch1 chl1 show ?thesis
        by (auto simp: delivered_def)
    qed
  qed
  from 1 wf' 2 3 4 5 show ?case by blast
qed


lemma Bundle_copy:
  "Bundle w = (r, w1) \<Longrightarrow>
     slice_elems (arrays w1) r = slice_elems (arrays w) (bundle w) \<and>
     w1 = w\<lparr>arrays := arrays w1\<rparr>"
  by (auto simp: Bundle_def append_to_nil_def slice_elems_def split: if_splits)

lemma pass_post_Nil: "wf_subscribers w \<Longrightarrow> pass_post w [] w"
  by (simp add: pass_post_def untouched_refl)

lemma notifySubscribers_Some:
  assumes wf: "wf_subscribers w" and ps: "\<forall>p \<in> set ps. p < length (subscriber_objs w)"
  shows "\<exists>w'. notifySubscribers w (Some ps) = Inr w' \<and> pass_post w ps w'"
proof -
  obtain r w1 where B: "Bundle w = (r, w1)" by (cases "Bundle w")
  from Bundle_copy [OF B] have copy: "slice_elems (arrays w1) r = slice_elems (arrays w) (bundle w)"
    and w1: "w1 = w\<lparr>arrays := arrays w1\<rparr>" by simp_all
  have eqs: "subscriber_objs w1 = subscriber_objs w" "chans w1 = chans w"
    "cache w1 = cache w" "bundle w1 = bundle w" "subscribers w1 = subscribers w"
    by (subst w1, simp)+
  from wf eqs have wf1: "wf_subscribers w1" by (simp add: wf_subscribers_def)
  from ps eqs have ps1: "\<forall>p \<in> set ps. p < length (subscriber_objs w1)" by simp
  from notify_loop_pass [OF wf1 ps1, of "Entries w" r] obtain w' where
    loop: "notify_loop w1 (Entries w) r ps = Inr w'" and wf': "wf_subscribers w'"
    and fr: "frame w1 w'"
    and reg: "subscribers w' =
             filter (\<lambda>q. \<not> (q \<in> set ps \<and> \<not> active (subscriber_objs w1 ! q))) (subscribers w1)"
    and un: "\<forall>q < length (subscriber_objs w1).
               q \<notin> set ps \<or> \<not> active (subscriber_objs w1 ! q) \<longrightarrow> untouched w1 w' q"
    and del: "\<forall>p \<in> set ps. active (subscriber_objs w1 ! p) \<longrightarrow> delivered w1 w' (Entries w) r p"
    by blast
  have 1: "notifySubscribers w (Some ps) = Inr w'"
    using B loop by (simp add: notifySubscribers_def)
  have u: "untouched w1 w' q = untouched w w' q" for q
    by (simp add: untouched_def eqs)
  have d: "delivered w1 w' es bd q = delivered w w' es bd q" for es bd q
    by (simp add: delivered_def pending_def eqs)
  from fr have arr: "arrays w' = arrays w1" by (simp add: frame_def)
  have "pass_post w ps w'"
    unfolding pass_post_def
  proof (intro conjI)
    show "\<forall>p\<in>set ps. active (subscriber_objs w ! p) \<longrightarrow>
       (\<exists>bdl. delivered w w' (Entries w) bdl p \<and>
              slice_elems (arrays w') bdl = slice_elems (arrays w) (bundle w))"
      using del copy arr by (auto simp: d eqs)
    show "\<forall>q<length (subscriber_objs w).
       q \<notin> set ps \<or> \<not> active (subscriber_objs w ! q) \<longrightarrow> untouched w w' q"
      using un by (simp add: u eqs)
  qed (use wf' fr reg in \<open>simp_all add: frame_def eqs\<close>)
  with 1 show ?thesis by blast
qed

lemma notifySubscribers_slice_of:
  assumes wf: "wf_subscribers w" and ps: "\<forall>p \<in> set ps. p < length (subscriber_objs w)"
  shows "\<exists>w'. notifySubscribers w (slice_of ps) = Inr w' \<and> pass_post w ps w'"
proof (cases "ps = []")
  case True
  with wf show ?thesis
    by (simp add: slice_of_def notifySubscribers_def pass_post_Nil)
next
  case False
  with notifySubscribers_Some [OF wf ps] show ?thesis
    by (simp add: slice_of_def)
qed

subsection \<open>The methods as notification passes\<close>

lemma wf_sample_world:
  "wf_subscribers sample_world \<and> wf_registry sample_world \<and> wf_cache sample_world"
  by (simp add: sample_world_def wf_subscribers_def wf_registry_def wf_cache_def sub_ok_def
      entry_E1_def entry_E2_def)

lemma pass_post_delivered:
  assumes "pass_post w ps w'" "p \<in> set ps" "active (subscriber_objs w ! p)"
  shows "\<exists>u. pending w' p = [u] \<and>
           upd_Entries u = subscriberEntries (subscriber_objs w ! p) (Entries w) \<and>
           slice_elems (arrays w') (upd_Bundle u) = slice_elems (arrays w) (bundle w) \<and>
           (pending w p \<noteq> [] \<longrightarrow>
              length (chans w) \<le> c (subscriber_objs w' ! p) \<and>
              chans w' ! c (subscriber_objs w ! p) =
                (chans w ! c (subscriber_objs w ! p))\<lparr>closed := True\<rparr>)"
proof -
  from assms obtain bdl where d: "delivered w w' (Entries w) bdl p"
    and b: "slice_elems (arrays w') bdl = slice_elems (arrays w) (bundle w)"
    unfolding pass_post_def by blast
  from d b show ?thesis
    by (simp add: delivered_def snapshot_def)
qed

lemma pass_post_registry:
  assumes "pass_post w ps w'"
  shows "subscribers w' =
           filter (\<lambda>q. \<not> (q \<in> set ps \<and> \<not> active (subscriber_objs w ! q))) (subscribers w)"
  using assms by (simp add: pass_post_def)


lemma pass_post_wf:
  assumes "pass_post w ps w'"
  shows "wf_subscribers w'" "cache w' = cache w" "bundle w' = bundle w"
    "length (subscriber_objs w') = length (subscriber_objs w)"
  using assms by (simp_all add: pass_post_def)

lemma SetBundle_pass:
  assumes "wf_subscribers w" "wf_registry w"
  shows "\<exists>w'. SetBundle w b = Inr w' \<and> pass_post (w\<lparr>bundle := b\<rparr>) (subscribers w) w'"
proof -
  let ?w1 = "w\<lparr>bundle := b\<rparr>"
  from assms have "wf_subscribers ?w1" "\<forall>p \<in> set (subscribers w). p < length (subscriber_objs ?w1)"
    by (simp_all add: wf_subscribers_def wf_registry_def)
  from notifySubscribers_slice_of [OF this] show ?thesis
    by (simp add: SetBundle_def getAll_def)
qed

lemma Subscribe_pass:
  assumes "wf_subscribers w" "p < length (subscriber_objs w)"
  shows "\<exists>w'. Subscribe w p = Inr w' \<and>
           pass_post (w\<lparr>subscribers := add (subscribers w) p\<rparr>) [p] w'"
proof -
  let ?w1 = "w\<lparr>subscribers := add (subscribers w) p\<rparr>"
  from assms have "wf_subscribers ?w1" "\<forall>q \<in> set [p]. q < length (subscriber_objs ?w1)"
    by (simp_all add: wf_subscribers_def)
  from notifySubscribers_Some [OF this] show ?thesis
    by (simp add: Subscribe_def)
qed

lemma SetEntry_pass:
  assumes "wf_subscribers w"
  shows "\<exists>w'. SetEntry w e = Inr w' \<and>
           pass_post (w\<lparr>cache := AList.update (EntryId (RegistrationEntry e)) e (cache w)\<rparr>)
             (matching (subscriber_objs w) (subscribers w) (Selectors (RegistrationEntry e))) w'"
proof -
  let ?w1 = "w\<lparr>cache := AList.update (EntryId (RegistrationEntry e)) e (cache w)\<rparr>"
  let ?ps = "matching (subscriber_objs w) (subscribers w) (Selectors (RegistrationEntry e))"
  from assms have "wf_subscribers ?w1" "\<forall>q \<in> set ?ps. q < length (subscriber_objs ?w1)"
    by (simp_all add: wf_subscribers_def matching_def)
  from notifySubscribers_slice_of [OF this] show ?thesis
    by (simp add: SetEntry_def get_def matching_def)
qed

lemma DeleteEntry_pass:
  assumes "wf_subscribers w" "map_of (cache w) (EntryId r) = Some e"
  shows "\<exists>w'. DeleteEntry w r = Inr (w', True) \<and>
           pass_post (w\<lparr>cache := AList.delete (EntryId r) (cache w)\<rparr>)
             (matching (subscriber_objs w) (subscribers w) (Selectors (RegistrationEntry e))) w'"
proof -
  let ?w1 = "w\<lparr>cache := AList.delete (EntryId r) (cache w)\<rparr>"
  let ?ps = "matching (subscriber_objs w) (subscribers w) (Selectors (RegistrationEntry e))"
  from assms have "wf_subscribers ?w1" "\<forall>q \<in> set ?ps. q < length (subscriber_objs ?w1)"
    by (simp_all add: wf_subscribers_def matching_def)
  from notifySubscribers_slice_of [OF this] obtain w' where
    "notifySubscribers ?w1 (slice_of ?ps) = Inr w'" "pass_post ?w1 ?ps w'" by blast
  with assms(2) show ?thesis
    by (simp add: DeleteEntry_def get_def matching_def)
qed

subsection \<open>The map\<close>

lemma filter_key_absent:
  "k \<notin> fst ` set al \<Longrightarrow> filter (\<lambda>ke. fst ke = k) al = []"
  by (induction al) auto

lemma filter_key_update:
  "distinct (map fst al) \<Longrightarrow> filter (\<lambda>ke. fst ke = k) (AList.update k v al) = [(k, v)]"
proof (induction al)
  case Nil
  then show ?case by simp
next
  case (Cons x al)
  show ?case
  proof (cases "fst x = k")
    case True
    with Cons.prems have "k \<notin> fst ` set al" by auto
    with True show ?thesis by (simp add: filter_key_absent)
  next
    case False
    with Cons show ?thesis by simp
  qed
qed

lemma filter_other_update:
  "filter (\<lambda>ke. fst ke \<noteq> k) (AList.update k v al) = filter (\<lambda>ke. fst ke \<noteq> k) al"
  by (induction al) auto

lemma set_update_subset: "set (AList.update k v al) \<subseteq> insert (k, v) (set al)"
  by (induction al) auto

lemma wf_cache_update:
  assumes "wf_cache w"
  shows "wf_cache (w\<lparr>cache := AList.update (EntryId (RegistrationEntry e)) e (cache w)\<rparr>)"
proof -
  have "fst ke = EntryId (RegistrationEntry (snd ke))"
    if "ke \<in> set (AList.update (EntryId (RegistrationEntry e)) e (cache w))" for ke
  proof -
    from that set_update_subset
    have "ke = (EntryId (RegistrationEntry e), e) \<or> ke \<in> set (cache w)" by fastforce
    with assms show ?thesis by (auto simp: wf_cache_def)
  qed
  with assms show ?thesis
    by (simp add: wf_cache_def distinct_update)
qed

lemma wf_cache_delete:
  assumes "wf_cache w"
  shows "wf_cache (w\<lparr>cache := AList.delete k (cache w)\<rparr>)"
proof -
  have "set (AList.delete k (cache w)) \<subseteq> set (cache w)"
    by (auto simp: AList.delete_eq)
  with assms show ?thesis
    by (auto simp: wf_cache_def intro: distinct_delete)
qed

lemma wf_cache_cong: "cache w' = cache w \<Longrightarrow> wf_cache w' = wf_cache w"
  by (simp add: wf_cache_def)

lemma wf_cache_absent:
  assumes "wf_cache w" "map_of (cache w) k = None" "x \<in> set (Entries w)"
  shows "EntryId (RegistrationEntry x) \<noteq> k"
proof
  assume k: "EntryId (RegistrationEntry x) = k"
  from assms(3) obtain k' where in_c: "(k', x) \<in> set (cache w)"
    by (auto simp: Entries_def)
  with assms(1) have "k' = EntryId (RegistrationEntry x)"
    by (auto simp: wf_cache_def)
  with in_c k have "k \<in> fst ` set (cache w)" by force
  with assms(2) show False by (simp add: map_of_eq_None_iff)
qed

lemma wf_cache_present:
  assumes "wf_cache w" "map_of (cache w) k = Some e"
  shows "EntryId (RegistrationEntry e) = k"
  using assms by (auto simp: wf_cache_def dest!: map_of_SomeD)

lemma subscriberEntries_subset: "set (subscriberEntries sub es) \<subseteq> set es"
  by (simp add: subscriberEntries_filter)

subsection \<open>The registry and the invariants\<close>



lemma slice_elems_append:
  "valid_slice h s \<Longrightarrow> slice_elems (h @ [ys]) s = slice_elems h s"
  by (cases s) (simp_all add: slice_elems_def valid_slice_def nth_append)

lemma pass_post_invariants:
  assumes "pass_post w ps w'" "wf_registry w" "wf_cache w"
  shows "wf_subscribers w' \<and> wf_registry w' \<and> wf_cache w'"
proof -
  from assms(1) have "wf_subscribers w'" by (rule pass_post_wf)
  moreover from assms(1,2) have "wf_registry w'"
    by (auto simp: pass_post_def wf_registry_def)
  moreover from assms(1) have "cache w' = cache w" by (rule pass_post_wf)
  with assms(3) have "wf_cache w'" using wf_cache_cong [of w' w] by blast
  ultimately show ?thesis by simp
qed

lemma New_invariants:
  "wf_cache (New objs chs arrs b) \<and> wf_registry (New objs chs arrs b)"
  by (simp add: New_def wf_cache_def wf_registry_def NewSubscribers_def)

lemma deactivate_invariants:
  assumes "wf_subscribers w"
  shows "wf_subscribers (deactivate w p)"
proof (cases "p < length (subscriber_objs w)")
  case True
  with assms show ?thesis
    unfolding wf_subscribers_nth by (auto simp: deactivate_def sub_ok_def nth_list_update)
next
  case False
  with assms show ?thesis by (simp add: deactivate_def)
qed

lemma methods_preserve_invariants:
  assumes wfs: "wf_subscribers w" and wfr: "wf_registry w" and wfc: "wf_cache w"
  shows "SetBundle w b = Inr w' \<Longrightarrow> wf_subscribers w' \<and> wf_registry w' \<and> wf_cache w'"
    and "SetEntry w e = Inr w' \<Longrightarrow> wf_subscribers w' \<and> wf_registry w' \<and> wf_cache w'"
    and "DeleteEntry w r = Inr (w', d) \<Longrightarrow> wf_subscribers w' \<and> wf_registry w' \<and> wf_cache w'"
    and "p < length (subscriber_objs w) \<Longrightarrow> Subscribe w p = Inr w' \<Longrightarrow>
           wf_subscribers w' \<and> wf_registry w' \<and> wf_cache w'"
proof -
  show "wf_subscribers w' \<and> wf_registry w' \<and> wf_cache w'" if "SetBundle w b = Inr w'"
  proof -
    from SetBundle_pass [OF wfs wfr, of b] that
    have "pass_post (w\<lparr>bundle := b\<rparr>) (subscribers w) w'" by auto
    moreover from wfr wfc have "wf_registry (w\<lparr>bundle := b\<rparr>)" "wf_cache (w\<lparr>bundle := b\<rparr>)"
      by (simp_all add: wf_registry_def wf_cache_def)
    ultimately show ?thesis by (rule pass_post_invariants)
  qed
  show "wf_subscribers w' \<and> wf_registry w' \<and> wf_cache w'" if "SetEntry w e = Inr w'"
  proof -
    let ?w1 = "w\<lparr>cache := AList.update (EntryId (RegistrationEntry e)) e (cache w)\<rparr>"
    from SetEntry_pass [OF wfs, of e] that
    have "pass_post ?w1 (matching (subscriber_objs w) (subscribers w) (Selectors (RegistrationEntry e))) w'" by auto
    moreover from wfr have "wf_registry ?w1" by (simp add: wf_registry_def)
    moreover from wfc have "wf_cache ?w1" by (rule wf_cache_update)
    ultimately show ?thesis by (rule pass_post_invariants)
  qed
  show "wf_subscribers w' \<and> wf_registry w' \<and> wf_cache w'" if del: "DeleteEntry w r = Inr (w', d)"
  proof (cases "map_of (cache w) (EntryId r)")
    case None
    then have "DeleteEntry w r = Inr (w, False)" by (simp add: DeleteEntry_def)
    with del wfs wfr wfc show ?thesis by simp
  next
    case (Some x)
    let ?w1 = "w\<lparr>cache := AList.delete (EntryId r) (cache w)\<rparr>"
    from DeleteEntry_pass [OF wfs Some] del
    have "pass_post ?w1 (matching (subscriber_objs w) (subscribers w) (Selectors (RegistrationEntry x))) w'" by auto
    moreover from wfr have "wf_registry ?w1" by (simp add: wf_registry_def)
    moreover from wfc have "wf_cache ?w1" by (rule wf_cache_delete)
    ultimately show ?thesis by (rule pass_post_invariants)
  qed
  show "wf_subscribers w' \<and> wf_registry w' \<and> wf_cache w'"
    if p: "p < length (subscriber_objs w)" and sub: "Subscribe w p = Inr w'"
  proof -
    let ?w1 = "w\<lparr>subscribers := add (subscribers w) p\<rparr>"
    from Subscribe_pass [OF wfs p] sub have "pass_post ?w1 [p] w'" by auto
    moreover from wfr p have "wf_registry ?w1" by (simp add: wf_registry_def add_def)
    moreover from wfc have "wf_cache ?w1" by (simp add: wf_cache_def)
    ultimately show ?thesis by (rule pass_post_invariants)
  qed
qed

section \<open>The claims\<close>



text \<open>C2. Single slot, superseding, non-blocking: from a state in which every active
  subscriber owns an open channel of capacity 1, a notification pass over any non-nil
  pointers returns (no send waits, nothing panics). Every active target then has exactly
  one update in its channel, the fresh snapshot of this pass. If its channel held an
  update before, the subscriber now points to a channel that did not exist before, and
  the old channel is closed and still holds the old update, which is never delivered
  through the subscriber again. Afterwards every active subscriber again owns a channel
  of capacity 1 holding at most one update, and the invariant the pass started from
  holds again.\<close>

theorem notifySubscribers_supersedes:
  assumes "wf_subscribers w" and "\<forall>q \<in> set ps. q < length (subscriber_objs w)"
  shows "\<exists>w'. notifySubscribers w (Some ps) = Inr w' \<and>
           (\<forall>p \<in> set ps. active (subscriber_objs w ! p) \<longrightarrow>
              (\<exists>u. pending w' p = [u] \<and>
                    upd_Entries u = subscriberEntries (subscriber_objs w ! p) (Entries w) \<and>
                    slice_elems (arrays w') (upd_Bundle u) = slice_elems (arrays w) (bundle w)) \<and>
              (pending w p \<noteq> [] \<longrightarrow>
                 length (chans w) \<le> c (subscriber_objs w' ! p) \<and>
                 closed (chans w' ! c (subscriber_objs w ! p)) \<and>
                 buf (chans w' ! c (subscriber_objs w ! p)) = pending w p)) \<and>
           (\<forall>sub \<in> set (subscriber_objs w').
              active sub \<longrightarrow>
                c sub < length (chans w') \<and> cap (chans w' ! c sub) = 1 \<and>
                length (buf (chans w' ! c sub)) \<le> 1) \<and>
           wf_subscribers w'"
proof -
  from notifySubscribers_Some [OF assms] obtain w' where
    1: "notifySubscribers w (Some ps) = Inr w'" and post: "pass_post w ps w'" by blast
  from post have wf': "wf_subscribers w'" by (rule pass_post_wf)
  have 2: "(\<exists>u. pending w' p = [u] \<and>
                upd_Entries u = subscriberEntries (subscriber_objs w ! p) (Entries w) \<and>
                slice_elems (arrays w') (upd_Bundle u) = slice_elems (arrays w) (bundle w)) \<and>
           (pending w p \<noteq> [] \<longrightarrow>
                 length (chans w) \<le> c (subscriber_objs w' ! p) \<and>
                 closed (chans w' ! c (subscriber_objs w ! p)) \<and>
                 buf (chans w' ! c (subscriber_objs w ! p)) = pending w p)"
    if "p \<in> set ps" "active (subscriber_objs w ! p)" for p
  proof -
    from pass_post_delivered [OF post that] obtain u where
      u: "pending w' p = [u]"
      "upd_Entries u = subscriberEntries (subscriber_objs w ! p) (Entries w)"
      "slice_elems (arrays w') (upd_Bundle u) = slice_elems (arrays w) (bundle w)"
      and old: "pending w p \<noteq> [] \<longrightarrow>
              length (chans w) \<le> c (subscriber_objs w' ! p) \<and>
              chans w' ! c (subscriber_objs w ! p) =
                (chans w ! c (subscriber_objs w ! p))\<lparr>closed := True\<rparr>"
      by blast
    from old have "pending w p \<noteq> [] \<longrightarrow>
                 length (chans w) \<le> c (subscriber_objs w' ! p) \<and>
                 closed (chans w' ! c (subscriber_objs w ! p)) \<and>
                 buf (chans w' ! c (subscriber_objs w ! p)) = pending w p"
      by (simp add: pending_def)
    with u show ?thesis by blast
  qed
  have 3: "\<forall>sub \<in> set (subscriber_objs w').
              active sub \<longrightarrow>
                c sub < length (chans w') \<and> cap (chans w' ! c sub) = 1 \<and>
                length (buf (chans w' ! c sub)) \<le> 1"
    using wf' by (simp add: wf_subscribers_def sub_ok_def)
  from 1 2 3 wf' show ?thesis by blast
qed

theorem notifySubscribers_supersedes_witness:
  "wf_subscribers sample_world \<and> pending sample_world 0 = [stale_update] \<and>
   (\<exists>w'. notifySubscribers sample_world (Some [0]) = Inr w' \<and>
         pending w' 0 = [\<lparr>upd_Entries = [entry_E1], upd_Bundle = Slice 2 0 1\<rparr>] \<and>
         3 \<le> c (subscriber_objs w' ! 0) \<and> closed (chans w' ! 0) \<and>
         buf (chans w' ! 0) = [stale_update])"
proof -
  have h1: "wf_subscribers sample_world" using wf_sample_world by simp
  have h2: "\<forall>q \<in> set [0]. q < length (subscriber_objs sample_world)"
    by (simp add: sample_world_def)
  have p: "pending sample_world 0 = [stale_update]"
    by (simp add: sample_world_def pending_def)
  from notifySubscribers_supersedes [OF h1 h2] obtain w' where
    r: "notifySubscribers sample_world (Some [0]) = Inr w'"
    and d: "active (subscriber_objs sample_world ! 0) \<longrightarrow>
              (pending sample_world 0 \<noteq> [] \<longrightarrow>
                 length (chans sample_world) \<le> c (subscriber_objs w' ! 0) \<and>
                 closed (chans w' ! c (subscriber_objs sample_world ! 0)) \<and>
                 buf (chans w' ! c (subscriber_objs sample_world ! 0)) = pending sample_world 0)"
    by auto
  have v: "notifySubscribers sample_world (Some [0]) =
        Inr (sample_world\<lparr>subscriber_objs := (subscriber_objs sample_world)[0 := \<lparr>c = 3, sel = [selector_a, selector_b], active = True\<rparr>],
             chans := [\<lparr>buf = [stale_update], cap = 1, closed = True\<rparr>,
         \<lparr>buf = [], cap = 1, closed = True\<rparr>,
         \<lparr>buf = [], cap = 1, closed = False\<rparr>, \<lparr>buf = [\<lparr>upd_Entries = [entry_E1], upd_Bundle = Slice 2 0 1\<rparr>], cap = 1, closed = False\<rparr>],
             arrays := [[CertRef 7], [CertRef 8, CertRef 9], [CertRef 7]]\<rparr>)"
    by (simp add: sample_world_def notifySubscribers_def Bundle_def Entries_def
        append_to_nil_def slice_elems_def notify_one_def replace_full_def chan_len_def
        chan_close_def chan_make_def chan_send_def entry_E1_def entry_E2_def IncludesSet_def
        NewSetFromRaw_def selector_a_def selector_b_def selector_c_def)
  from r v have "pending w' 0 = [\<lparr>upd_Entries = [entry_E1], upd_Bundle = Slice 2 0 1\<rparr>]"
    by (auto simp: pending_def sample_world_def)
  moreover from d p have "3 \<le> c (subscriber_objs w' ! 0) \<and> closed (chans w' ! 0) \<and>
         buf (chans w' ! 0) = [stale_update]"
    by (simp add: sample_world_def)
  ultimately show ?thesis using h1 p r by blast
qed



text \<open>C4. Deletion consistency: if \<^verbatim>\<open>DeleteEntry\<close> returns true, the map held an entry
  \<open>e\<close> under that identifier; afterwards \<^verbatim>\<open>Entry\<close> returns nil for the identifier and
  \<open>e\<close> is not among \<^verbatim>\<open>Entries\<close>. In the state after the deletion, and in any later
  state in which the identifier is still absent, a notification pass delivers to each
  active target one update, and that update does not contain \<open>e\<close>.\<close>

theorem DeleteEntry_consistent:
  assumes wfc: "wf_cache w" and wfs: "wf_subscribers w"
    and del: "DeleteEntry w regEntry = Inr (w', True)"
  shows "\<exists>e. Entry w regEntry = Some e \<and> Entry w' regEntry = None \<and>
           e \<notin> set (Entries w') \<and> wf_cache w' \<and> wf_subscribers w' \<and>
           (\<forall>v ps. wf_cache v \<and> Entry v regEntry = None \<and> wf_subscribers v \<and>
                   (\<forall>q \<in> set ps. q < length (subscriber_objs v)) \<longrightarrow>
              (\<exists>v'. notifySubscribers v (Some ps) = Inr v' \<and>
                 (\<forall>p \<in> set ps. active (subscriber_objs v ! p) \<longrightarrow>
                    (\<exists>u. pending v' p = [u] \<and> e \<notin> set (upd_Entries u)))))"
proof -
  have "\<exists>e. map_of (cache w) (EntryId regEntry) = Some e"
  proof (rule ccontr)
    assume "\<not> ?thesis"
    then have "map_of (cache w) (EntryId regEntry) = None" by simp
    then have "DeleteEntry w regEntry = Inr (w, False)" by (simp add: DeleteEntry_def)
    with del show False by simp
  qed
  then obtain e where e: "map_of (cache w) (EntryId regEntry) = Some e" ..
  let ?w1 = "w\<lparr>cache := AList.delete (EntryId regEntry) (cache w)\<rparr>"
  from DeleteEntry_pass [OF wfs e] obtain w2 where
    "DeleteEntry w regEntry = Inr (w2, True)"
    "pass_post ?w1 (matching (subscriber_objs w) (subscribers w) (Selectors (RegistrationEntry e))) w2" by blast
  with del have post: "pass_post ?w1 (matching (subscriber_objs w) (subscribers w) (Selectors (RegistrationEntry e))) w'"
    by simp
  from pass_post_wf [OF post] have wfs': "wf_subscribers w'"
    and c': "cache w' = AList.delete (EntryId regEntry) (cache w)" by simp_all
  have "wf_cache ?w1" using wfc by (rule wf_cache_delete)
  moreover from c' have "cache w' = cache ?w1" by simp
  ultimately have wfc': "wf_cache w'" using wf_cache_cong [of w' ?w1] by blast
  from c' have absent: "Entry w' regEntry = None"
    by (simp add: Entry_def delete_conv')
  from wf_cache_present [OF wfc e] have id: "EntryId (RegistrationEntry e) = EntryId regEntry" .
  have gone: "e \<notin> set (Entries v)" if "wf_cache v" "Entry v regEntry = None" for v
    using wf_cache_absent [OF that(1), of "EntryId regEntry" e] that(2) id
    by (auto simp: Entry_def)
  have later: "\<exists>v'. notifySubscribers v (Some ps) = Inr v' \<and>
                 (\<forall>p \<in> set ps. active (subscriber_objs v ! p) \<longrightarrow>
                    (\<exists>u. pending v' p = [u] \<and> e \<notin> set (upd_Entries u)))"
    if v: "wf_cache v" "Entry v regEntry = None" "wf_subscribers v"
      "\<forall>q \<in> set ps. q < length (subscriber_objs v)" for v ps
  proof -
    from notifySubscribers_Some [OF v(3,4)] obtain v' where
      1: "notifySubscribers v (Some ps) = Inr v'" and post: "pass_post v ps v'" by blast
    have "\<exists>u. pending v' p = [u] \<and> e \<notin> set (upd_Entries u)"
      if "p \<in> set ps" "active (subscriber_objs v ! p)" for p
    proof -
      from pass_post_delivered [OF post that] obtain u where
        u: "pending v' p = [u]"
        "upd_Entries u = subscriberEntries (subscriber_objs v ! p) (Entries v)" by blast
      from gone [OF v(1,2)] subscriberEntries_subset have "e \<notin> set (upd_Entries u)"
        unfolding u(2) by blast
      with u(1) show ?thesis by blast
    qed
    with 1 show ?thesis by blast
  qed
  from e have present: "Entry w regEntry = Some e" by (simp add: Entry_def)
  note gone' = gone [OF wfc' absent]
  from later have later': "\<forall>v ps. wf_cache v \<and> Entry v regEntry = None \<and> wf_subscribers v \<and>
                   (\<forall>q \<in> set ps. q < length (subscriber_objs v)) \<longrightarrow>
              (\<exists>v'. notifySubscribers v (Some ps) = Inr v' \<and>
                 (\<forall>p \<in> set ps. active (subscriber_objs v ! p) \<longrightarrow>
                    (\<exists>u. pending v' p = [u] \<and> e \<notin> set (upd_Entries u))))"
    by simp
  show ?thesis
    by (intro exI [of _ e] conjI present absent gone' wfc' wfs' later')
qed

theorem DeleteEntry_consistent_witness:
  "wf_cache sample_world \<and> wf_subscribers sample_world \<and>
   Entry sample_world \<lparr>EntryId = ''E1'', Selectors = []\<rparr> = Some entry_E1 \<and>
   (\<exists>w'. DeleteEntry sample_world \<lparr>EntryId = ''E1'', Selectors = []\<rparr> = Inr (w', True) \<and>
      Entry w' \<lparr>EntryId = ''E1'', Selectors = []\<rparr> = None \<and>
      entry_E1 \<notin> set (Entries w') \<and>
      (\<exists>v' u. notifySubscribers w' (Some [0]) = Inr v' \<and> pending v' 0 = [u] \<and>
         entry_E1 \<notin> set (upd_Entries u)))"
proof -
  let ?r = "\<lparr>EntryId = ''E1'', Selectors = []\<rparr>"
  have wfc: "wf_cache sample_world" and wfs: "wf_subscribers sample_world"
    using wf_sample_world by simp_all
  have present: "map_of (cache sample_world) (EntryId ?r) = Some entry_E1"
    by (simp add: sample_world_def)
  then have present': "Entry sample_world ?r = Some entry_E1"
    by (simp add: Entry_def)
  from DeleteEntry_pass [OF wfs present] obtain w' where
    del: "DeleteEntry sample_world ?r = Inr (w', True)"
    and post: "pass_post (sample_world\<lparr>cache := AList.delete (EntryId ?r) (cache sample_world)\<rparr>)
             (matching (subscriber_objs sample_world) (subscribers sample_world) (Selectors (RegistrationEntry entry_E1))) w'"
    by blast
  from post have len: "0 < length (subscriber_objs w')" and act: "active (subscriber_objs w' ! 0)"
    by (simp_all add: pass_post_def sample_world_def)
  from DeleteEntry_consistent [OF wfc wfs del] present' have
    a: "Entry w' ?r = None" and b: "entry_E1 \<notin> set (Entries w')"
    and wf': "wf_cache w'" "wf_subscribers w'"
    and later: "\<forall>v ps. wf_cache v \<and> Entry v ?r = None \<and> wf_subscribers v \<and>
                   (\<forall>q \<in> set ps. q < length (subscriber_objs v)) \<longrightarrow>
              (\<exists>v'. notifySubscribers v (Some ps) = Inr v' \<and>
                 (\<forall>p \<in> set ps. active (subscriber_objs v ! p) \<longrightarrow>
                    (\<exists>u. pending v' p = [u] \<and> entry_E1 \<notin> set (upd_Entries u))))"
    by auto
  from later [rule_format, of w' "[0]"] wf' a len act
  have "\<exists>v' u. notifySubscribers w' (Some [0]) = Inr v' \<and> pending v' 0 = [u] \<and>
         entry_E1 \<notin> set (upd_Entries u)"
    by auto
  with wfc wfs present' del a b show ?thesis by blast
qed

text \<open>C5. Overwrite: \<^verbatim>\<open>SetEntry\<close> with \<open>e1\<close> and then with \<open>e2\<close>, two entries with
  the same identifier, both return; afterwards the map holds exactly one pair under that
  identifier, with \<open>e2\<close>, \<^verbatim>\<open>Entry\<close> returns \<open>e2\<close>, and the pairs under all other
  identifiers are the ones the map had before (the same pairs, hence the same count).\<close>

theorem SetEntry_overwrites:
  assumes wfc: "wf_cache w" and wfs: "wf_subscribers w"
    and same: "EntryId (RegistrationEntry e1) = EntryId (RegistrationEntry e2)"
  shows "\<exists>w1 w2. SetEntry w e1 = Inr w1 \<and> SetEntry w1 e2 = Inr w2 \<and>
           filter (\<lambda>ke. fst ke = EntryId (RegistrationEntry e2)) (cache w2) =
             [(EntryId (RegistrationEntry e2), e2)] \<and>
           Entry w2 (RegistrationEntry e2) = Some e2 \<and>
           filter (\<lambda>ke. fst ke \<noteq> EntryId (RegistrationEntry e2)) (cache w2) =
             filter (\<lambda>ke. fst ke \<noteq> EntryId (RegistrationEntry e2)) (cache w) \<and>
           wf_cache w2"
proof -
  let ?k = "EntryId (RegistrationEntry e2)"
  from SetEntry_pass [OF wfs, of e1] obtain w1 ps1 where
    1: "SetEntry w e1 = Inr w1"
    and post1: "pass_post (w\<lparr>cache := AList.update (EntryId (RegistrationEntry e1)) e1 (cache w)\<rparr>) ps1 w1"
    by blast
  from pass_post_wf [OF post1] same have wfs1: "wf_subscribers w1"
    and c1: "cache w1 = AList.update ?k e1 (cache w)" by simp_all
  from SetEntry_pass [OF wfs1, of e2] obtain w2 ps2 where
    2: "SetEntry w1 e2 = Inr w2"
    and post2: "pass_post (w1\<lparr>cache := AList.update ?k e2 (cache w1)\<rparr>) ps2 w2"
    by blast
  from pass_post_wf [OF post2] c1 have c2: "cache w2 = AList.update ?k e2 (cache w)"
    by simp
  from wfc have d: "distinct (map fst (cache w))" by (simp add: wf_cache_def)
  have 3: "filter (\<lambda>ke. fst ke = ?k) (cache w2) = [(?k, e2)]"
    unfolding c2 using d by (rule filter_key_update)
  have 4: "Entry w2 (RegistrationEntry e2) = Some e2"
    by (simp add: Entry_def c2 update_conv')
  have 5: "filter (\<lambda>ke. fst ke \<noteq> ?k) (cache w2) = filter (\<lambda>ke. fst ke \<noteq> ?k) (cache w)"
    unfolding c2 by (rule filter_other_update)
  have "wf_cache (w\<lparr>cache := AList.update ?k e2 (cache w)\<rparr>)"
    using wfc by (rule wf_cache_update)
  moreover have "cache w2 = cache (w\<lparr>cache := AList.update ?k e2 (cache w)\<rparr>)"
    using c2 by simp
  ultimately have 6: "wf_cache w2"
    using wf_cache_cong [of w2 "w\<lparr>cache := AList.update ?k e2 (cache w)\<rparr>"] by blast
  from 1 2 3 4 5 6 show ?thesis by blast
qed

theorem SetEntry_overwrites_witness:
  "wf_cache sample_world \<and> wf_subscribers sample_world \<and>
   EntryId (RegistrationEntry entry_E1_renewed) = EntryId (RegistrationEntry entry_E1) \<and>
   (\<exists>w1 w2. SetEntry sample_world entry_E1_renewed = Inr w1 \<and> SetEntry w1 entry_E1 = Inr w2 \<and>
      filter (\<lambda>ke. fst ke = ''E1'') (cache w2) = [(''E1'', entry_E1)] \<and>
      Entry w2 (RegistrationEntry entry_E1) = Some entry_E1 \<and>
      filter (\<lambda>ke. fst ke \<noteq> ''E1'') (cache w2) = [(''E2'', entry_E2)])"
proof -
  have wfc: "wf_cache sample_world" and wfs: "wf_subscribers sample_world"
    using wf_sample_world by simp_all
  have same: "EntryId (RegistrationEntry entry_E1_renewed) = EntryId (RegistrationEntry entry_E1)"
    by (simp add: entry_E1_def entry_E1_renewed_def)
  have k: "EntryId (RegistrationEntry entry_E1) = ''E1''" by (simp add: entry_E1_def)
  have o: "filter (\<lambda>ke. fst ke \<noteq> ''E1'') (cache sample_world) = [(''E2'', entry_E2)]"
    by (simp add: sample_world_def)
  from SetEntry_overwrites [OF wfc wfs same] k o same wfc wfs show ?thesis
    by auto
qed

text \<open>C6. Deleting a missing identifier: when the map has no entry under the identifier
  of \<open>regEntry\<close>, \<^verbatim>\<open>DeleteEntry\<close> returns false and the whole state is as it was: the
  map, the bundle, the registry, every subscriber and every channel. No notification
  pass has run, since no channel has changed.\<close>

theorem DeleteEntry_missing:
  assumes "Entry w regEntry = None"
  shows "DeleteEntry w regEntry = Inr (w, False)"
  using assms by (simp add: DeleteEntry_def Entry_def)

theorem DeleteEntry_missing_witness:
  "Entry sample_world \<lparr>EntryId = ''E9'', Selectors = []\<rparr> = None \<and>
   DeleteEntry sample_world \<lparr>EntryId = ''E9'', Selectors = []\<rparr> = Inr (sample_world, False)"
proof -
  have h: "Entry sample_world \<lparr>EntryId = ''E9'', Selectors = []\<rparr> = None"
    by (simp add: Entry_def sample_world_def)
  from h DeleteEntry_missing [OF h] show ?thesis by simp
qed

text \<open>C7. Bundle rotation: \<^verbatim>\<open>SetBundle\<close> returns; the stored bundle is then the slice
  \<open>b\<close> itself (nothing of the previous bundle is kept), the map is unchanged, and the
  pass has visited every registered subscriber: the inactive ones have left the
  registry, and every active one is still active and has exactly one update in its
  channel, whose bundle has the elements of \<open>b\<close> and whose entries are the cache's
  entries filtered by its selectors.\<close>

theorem SetBundle_notifies_all:
  assumes "wf_subscribers w" and "wf_registry w"
  shows "\<exists>w'. SetBundle w b = Inr w' \<and> bundle w' = b \<and> cache w' = cache w \<and>
           subscribers w' = filter (\<lambda>q. active (subscriber_objs w ! q)) (subscribers w) \<and>
           (\<forall>p \<in> set (subscribers w). active (subscriber_objs w ! p) \<longrightarrow>
              active (subscriber_objs w' ! p) \<and>
              (\<exists>u. pending w' p = [u] \<and>
                 slice_elems (arrays w') (upd_Bundle u) = slice_elems (arrays w) b \<and>
                 upd_Entries u = subscriberEntries (subscriber_objs w ! p) (Entries w)))"
proof -
  let ?w1 = "w\<lparr>bundle := b\<rparr>"
  from SetBundle_pass [OF assms] obtain w' where
    1: "SetBundle w b = Inr w'" and post: "pass_post ?w1 (subscribers w) w'" by blast
  from pass_post_wf [OF post] have 2: "bundle w' = b" "cache w' = cache w" by simp_all
  from pass_post_registry [OF post] have
    "subscribers w' = filter (\<lambda>q. \<not> (q \<in> set (subscribers w) \<and> \<not> active (subscriber_objs w ! q)))
        (subscribers w)" by simp
  also have "\<dots> = filter (\<lambda>q. active (subscriber_objs w ! q)) (subscribers w)"
    by (intro filter_cong refl) auto
  finally have 3: "subscribers w' = filter (\<lambda>q. active (subscriber_objs w ! q)) (subscribers w)" .
  have 4: "active (subscriber_objs w' ! p) \<and>
              (\<exists>u. pending w' p = [u] \<and>
                 slice_elems (arrays w') (upd_Bundle u) = slice_elems (arrays w) b \<and>
                 upd_Entries u = subscriberEntries (subscriber_objs w ! p) (Entries w))"
    if "p \<in> set (subscribers w)" "active (subscriber_objs w ! p)" for p
  proof -
    from that(2) have act: "active (subscriber_objs ?w1 ! p)" by simp
    from pass_post_delivered [OF post that(1) act] obtain u where
      "pending w' p = [u]"
      "upd_Entries u = subscriberEntries (subscriber_objs w ! p) (Entries w)"
      "slice_elems (arrays w') (upd_Bundle u) = slice_elems (arrays w) b"
      by (auto simp: Entries_def)
    moreover from that assms(2) have "p < length (subscriber_objs ?w1)"
      by (simp add: wf_registry_def)
    with post that(2) have "active (subscriber_objs w' ! p)"
      by (simp add: pass_post_def)
    ultimately show ?thesis by blast
  qed
  from 1 2 3 4 show ?thesis by blast
qed

theorem SetBundle_notifies_all_witness:
  "wf_subscribers sample_world \<and> wf_registry sample_world \<and>
   (\<exists>w' u. SetBundle sample_world (Slice 1 0 2) = Inr w' \<and> bundle w' = Slice 1 0 2 \<and>
      subscribers w' = [0] \<and> pending w' 0 = [u] \<and>
      slice_elems (arrays w') (upd_Bundle u) = [CertRef 8, CertRef 9] \<and>
      upd_Entries u = [entry_E1])"
proof -
  have h1: "wf_subscribers sample_world" and h2: "wf_registry sample_world"
    using wf_sample_world by simp_all
  have e: "subscriberEntries (subscriber_objs sample_world ! 0) (Entries sample_world) = [entry_E1]"
    by (simp add: sample_world_def Entries_def entry_E1_def entry_E2_def IncludesSet_def
        NewSetFromRaw_def selector_a_def selector_b_def selector_c_def)
  from SetBundle_notifies_all [OF h1 h2, of "Slice 1 0 2"] obtain w' where
    r: "SetBundle sample_world (Slice 1 0 2) = Inr w'" "bundle w' = Slice 1 0 2"
    "subscribers w' = filter (\<lambda>q. active (subscriber_objs sample_world ! q)) (subscribers sample_world)"
    and d: "\<forall>p \<in> set (subscribers sample_world). active (subscriber_objs sample_world ! p) \<longrightarrow>
              (\<exists>u. pending w' p = [u] \<and>
                 slice_elems (arrays w') (upd_Bundle u) = slice_elems (arrays sample_world) (Slice 1 0 2) \<and>
                 upd_Entries u = subscriberEntries (subscriber_objs sample_world ! p) (Entries sample_world))"
    by blast
  from r(3) have s: "subscribers w' = [0]" by (simp add: sample_world_def)
  have "0 \<in> set (subscribers sample_world)" "active (subscriber_objs sample_world ! 0)"
    by (simp_all add: sample_world_def)
  with d obtain u where "pending w' 0 = [u]"
    "slice_elems (arrays w') (upd_Bundle u) = slice_elems (arrays sample_world) (Slice 1 0 2)"
    "upd_Entries u = subscriberEntries (subscriber_objs sample_world ! 0) (Entries sample_world)"
    by blast
  moreover have "slice_elems (arrays sample_world) (Slice 1 0 2) = [CertRef 8, CertRef 9]"
    by (simp add: slice_elems_def sample_world_def)
  ultimately show ?thesis using e r s h1 h2 by auto
qed



text \<open>C9. Defensive copy: \<^verbatim>\<open>Bundle\<close> returns a slice with the elements of the stored
  bundle; it is nil or a slice over an array allocated by this call, and the stored
  bundle (the slice and its elements) is unchanged. A write through the returned slice
  changes neither the elements of the stored bundle nor what a later call of
  \<^verbatim>\<open>Bundle\<close> returns.\<close>

theorem Bundle_defensive_copy:
  assumes valid: "valid_slice (arrays w) (bundle w)" and B: "Bundle w = (r, w1)"
  shows "slice_elems (arrays w1) r = slice_elems (arrays w) (bundle w) \<and>
         bundle w1 = bundle w \<and>
         slice_elems (arrays w1) (bundle w1) = slice_elems (arrays w) (bundle w) \<and>
         (r = NilSlice \<or> (\<exists>n. r = Slice (length (arrays w)) 0 n)) \<and>
         (\<forall>i x h. slice_set (arrays w1) r i x = Some h \<longrightarrow>
            slice_elems h (bundle w1) = slice_elems (arrays w) (bundle w) \<and>
            (\<forall>r2 w2. Bundle (w1\<lparr>arrays := h\<rparr>) = (r2, w2) \<longrightarrow>
               slice_elems (arrays w2) r2 = slice_elems (arrays w) (bundle w)))"
proof -
  let ?xs = "slice_elems (arrays w) (bundle w)"
  from Bundle_copy [OF B] have 1: "slice_elems (arrays w1) r = ?xs"
    and w1: "w1 = w\<lparr>arrays := arrays w1\<rparr>" by simp_all
  have 2: "bundle w1 = bundle w" by (subst w1) simp
  have arr: "arrays w1 = (if ?xs = [] then arrays w else arrays w @ [?xs])"
    and r: "r = (if ?xs = [] then NilSlice else Slice (length (arrays w)) 0 (length ?xs))"
    using B by (auto simp: Bundle_def append_to_nil_def split: if_splits)
  have 3: "slice_elems (arrays w1) (bundle w1) = ?xs"
    using valid by (simp add: 2 arr slice_elems_append)
  have 4: "r = NilSlice \<or> (\<exists>n. r = Slice (length (arrays w)) 0 n)"
    using r by auto
  have 5: "slice_elems h (bundle w1) = ?xs \<and>
            (\<forall>r2 w2. Bundle (w1\<lparr>arrays := h\<rparr>) = (r2, w2) \<longrightarrow>
               slice_elems (arrays w2) r2 = ?xs)"
    if set: "slice_set (arrays w1) r i x = Some h" for i x h
  proof -
    from set r have ne: "?xs \<noteq> []"
      by (auto simp: slice_set_def split: if_splits)
    with set r arr have h: "h = arrays w @ [?xs[i := x]]"
      by (auto simp: slice_set_def list_update_append split: if_splits)
    from valid have a: "slice_elems h (bundle w1) = ?xs"
      by (simp add: 2 h slice_elems_append)
    have "slice_elems (arrays w2) r2 = ?xs" if "Bundle (w1\<lparr>arrays := h\<rparr>) = (r2, w2)" for r2 w2
      using Bundle_copy [OF that] a by simp
    with a show ?thesis by blast
  qed
  from 1 2 3 4 5 show ?thesis by blast
qed

theorem Bundle_defensive_copy_witness:
  "valid_slice (arrays sample_world) (bundle sample_world) \<and>
   (\<exists>r w1 h. Bundle sample_world = (r, w1) \<and> r = Slice 2 0 1 \<and>
      slice_elems (arrays w1) r = [CertRef 7] \<and>
      slice_set (arrays w1) r 0 (CertRef 5) = Some h \<and>
      slice_elems h r = [CertRef 5] \<and>
      slice_elems h (bundle w1) = [CertRef 7])"
proof -
  have v: "valid_slice (arrays sample_world) (bundle sample_world)"
    by (simp add: sample_world_def valid_slice_def)
  obtain r w1 where B: "Bundle sample_world = (r, w1)" by (cases "Bundle sample_world")
  have e: "slice_elems (arrays sample_world) (bundle sample_world) = [CertRef 7]"
    by (simp add: sample_world_def slice_elems_def)
  from B have r: "r = Slice 2 0 1"
    and a: "arrays w1 = [[CertRef 7], [CertRef 8, CertRef 9], [CertRef 7]]"
    by (auto simp: Bundle_def append_to_nil_def slice_elems_def sample_world_def)
  let ?h = "[[CertRef 7], [CertRef 8, CertRef 9], [CertRef 5]]"
  have s: "slice_set (arrays w1) r 0 (CertRef 5) = Some ?h"
    by (simp add: r a slice_set_def)
  have m: "slice_elems ?h r = [CertRef 5]"
    by (simp add: r slice_elems_def)
  from Bundle_defensive_copy [OF v B] s e have
    "slice_elems (arrays w1) r = [CertRef 7]" "slice_elems ?h (bundle w1) = [CertRef 7]"
    by auto
  with v B r s m show ?thesis by blast
qed

text \<open>C10. \<^verbatim>\<open>IsEmpty\<close> returns true exactly when \<^verbatim>\<open>Entries\<close> returns the empty
  sequence, and a cache made by \<^verbatim>\<open>New\<close> is empty.\<close>

theorem IsEmpty_iff_Entries_empty:
  "(IsEmpty w \<longleftrightarrow> Entries w = []) \<and> IsEmpty (New objs chs arrs b)"
  by (simp add: IsEmpty_def Entries_def New_def)

end
